theory Spec2Isabelle
  imports Main
begin

section \<open>Data model of package filewatch\<close>

text \<open>
  The part of \<^verbatim>\<open>os.FileInfo\<close> that \<^verbatim>\<open>Watch\<close> reads: \<^verbatim>\<open>IsDir()\<close>, \<^verbatim>\<open>ModTime()\<close> and
  \<^verbatim>\<open>Size()\<close>. A modification time is a point on a linear time line (nanoseconds), a size
  is an \<^verbatim>\<open>int64\<close>; neither takes part in arithmetic, only in comparisons.
\<close>

record fileinfo =
  IsDir :: bool
  ModTime :: int
  Size :: int

text \<open>Errors of the operating system, as \<^verbatim>\<open>os.Stat\<close>, \<^verbatim>\<open>os.Lstat\<close>, reading a directory
  and \<^verbatim>\<open>os.Getwd\<close> report them.\<close>

datatype syserr = ENOENT | EACCES | EIO

text \<open>
  Go \<^verbatim>\<open>error\<close> values that occur in \<^verbatim>\<open>Watch\<close>: the sentinel \<^verbatim>\<open>filepath.SkipDir\<close>, an error
  of the operating system, the \<^verbatim>\<open>fmt.Errorf\<close> value for a bad interval, and the run-time
  panic of calling a method on a nil \<^verbatim>\<open>os.FileInfo\<close>.
\<close>

datatype error = SkipDir | PathError syserr | IntervalError int | NilDereference

fun IsNotExist :: "error \<Rightarrow> bool" where
  "IsNotExist (PathError ENOENT) = True"
| "IsNotExist _ = False"

text \<open>\<^verbatim>\<open>type Update struct\<close>; a nil \<^verbatim>\<open>os.FileInfo\<close> or \<^verbatim>\<open>error\<close> is \<open>None\<close>.\<close>

record Update =
  AbsPath :: string
  Prev :: "fileinfo option"
  Next :: "fileinfo option"
  Error :: "error option"
  WasRemoved :: bool
  WasAdded :: bool

text \<open>The map \<^verbatim>\<open>infos\<close> of \<^verbatim>\<open>Watch\<close>: \<^verbatim>\<open>map[string]os.FileInfo\<close>.\<close>

type_synonym infos = "string \<rightharpoonup> fileinfo"

section \<open>The file system and \<^verbatim>\<open>filepath.Walk\<close>\<close>

text \<open>
  What a walk rooted at some path finds there: the result of \<^verbatim>\<open>os.Lstat\<close> on the path, the
  error of reading the directory's names if there is one, and the directory's entries in
  lexical order, each with what is found under it. The last two are looked at only when
  the path is a directory.
\<close>

datatype fsnode =
  Node (lstat: "syserr + fileinfo") (readDirErr: "syserr option") (entries: "(string \<times> fsnode) list")

text \<open>\<^verbatim>\<open>filepath.Join\<close> of a clean path and one name.\<close>

definition Join :: "string \<Rightarrow> string \<Rightarrow> string" where
  "Join dir name = dir @ ''/'' @ name"

text \<open>
  \<^verbatim>\<open>filepath.Walk\<close> of Go's standard library, which \<^verbatim>\<open>Watch\<close> calls with two closures.
  A closure reads and writes variables of \<^verbatim>\<open>Watch\<close>; here it takes their values as a
  state \<open>'s\<close> and returns the new state next to its \<^verbatim>\<open>error\<close>. The walk uses
  \<^verbatim>\<open>os.Lstat\<close>, so it does not follow symbolic links. (The sentinel \<^verbatim>\<open>SkipAll\<close> of the
  library is left out: no closure of \<^verbatim>\<open>Watch\<close> returns it.)
  \<^verbatim>\<open>
  func walk(path string, info fs.FileInfo, walkFn WalkFunc) error {
      if !info.IsDir() { return walkFn(path, info, nil) }
      names, err := readDirNames(path)
      err1 := walkFn(path, info, err)
      if err != nil || err1 != nil { return err1 }
      for _, name := range names {
          filename := Join(path, name)
          fileInfo, err := lstat(filename)
          if err != nil {
              if err := walkFn(filename, fileInfo, err); err != nil && err != SkipDir { return err }
          } else {
              err = walk(filename, fileInfo, walkFn)
              if err != nil { if !fileInfo.IsDir() || err != SkipDir { return err } }
          }
      }
      return nil
  }
  func Walk(root string, fn WalkFunc) error {
      info, err := os.Lstat(root)
      if err != nil { err = fn(root, nil, err) } else { err = walk(root, info, fn) }
      if err == SkipDir { return nil }
      return err
  }
  \<close>
\<close>

type_synonym 's walkfunc = "string \<Rightarrow> fileinfo option \<Rightarrow> error option \<Rightarrow> 's \<Rightarrow> error option \<times> 's"

fun walk :: "'s walkfunc \<Rightarrow> string \<Rightarrow> fileinfo \<Rightarrow> syserr option \<Rightarrow> (string \<times> fsnode) list \<Rightarrow> 's
      \<Rightarrow> error option \<times> 's"
  and walk_names :: "'s walkfunc \<Rightarrow> string \<Rightarrow> (string \<times> fsnode) list \<Rightarrow> 's \<Rightarrow> error option \<times> 's"
where
  "walk walkFn path info rderr names s =
     (if \<not> IsDir info then walkFn path (Some info) None s
      else case walkFn path (Some info) (map_option PathError rderr) s of
        (err1, s1) \<Rightarrow>
          if rderr \<noteq> None \<or> err1 \<noteq> None then (err1, s1)
          else walk_names walkFn path names s1)"
| "walk_names walkFn path [] s = (None, s)"
| "walk_names walkFn path ((name, Node (Inl e) rderr sub) # rest) s =
     (case walkFn (Join path name) None (Some (PathError e)) s of
        (err, s1) \<Rightarrow>
          if err \<noteq> None \<and> err \<noteq> Some SkipDir then (err, s1)
          else walk_names walkFn path rest s1)"
| "walk_names walkFn path ((name, Node (Inr fileInfo) rderr sub) # rest) s =
     (case walk walkFn (Join path name) fileInfo rderr sub s of
        (err, s1) \<Rightarrow>
          if err \<noteq> None \<and> (\<not> IsDir fileInfo \<or> err \<noteq> Some SkipDir) then (err, s1)
          else walk_names walkFn path rest s1)"

definition Walk :: "'s walkfunc \<Rightarrow> string \<Rightarrow> fsnode \<Rightarrow> 's \<Rightarrow> error option \<times> 's" where
  "Walk fn root t s =
     (case (case lstat t of
              Inl e \<Rightarrow> fn root None (Some (PathError e)) s
            | Inr info \<Rightarrow> walk fn root info (readDirErr t) (entries t) s) of
        (err, s1) \<Rightarrow> (if err = Some SkipDir then None else err, s1))"

section \<open>\<^verbatim>\<open>Watch\<close>: setup\<close>

text \<open>\<^verbatim>\<open>time.Second\<close>, a \<^verbatim>\<open>time.Duration\<close> in nanoseconds.\<close>

definition Second :: int where
  "Second = 1000000000"

text \<open>
  The closure of the initial walk, over the variables \<^verbatim>\<open>root\<close>, \<^verbatim>\<open>recurse\<close> and \<^verbatim>\<open>infos\<close>:
  \<^verbatim>\<open>
  func(path string, info os.FileInfo, e error) error {
      if e != nil { return e }
      infos[path] = info
      if info.IsDir() && !recurse && path != root { return filepath.SkipDir }
      return nil
  }
  \<close>
  \<^verbatim>\<open>filepath.Walk\<close> never passes a nil \<^verbatim>\<open>info\<close> together with a nil \<^verbatim>\<open>e\<close>; the closure would
  panic at \<^verbatim>\<open>info.IsDir()\<close>.
\<close>

definition walkInit :: "string \<Rightarrow> bool \<Rightarrow> infos walkfunc" where
  "walkInit root recurse path info e infos =
     (case e of
        Some err \<Rightarrow> (Some err, infos)
      | None \<Rightarrow>
          (case info of
             None \<Rightarrow> (Some NilDereference, infos)
           | Some i \<Rightarrow>
               (if IsDir i \<and> \<not> recurse \<and> path \<noteq> root
                then (Some SkipDir, infos(path \<mapsto> i))
                else (None, infos(path \<mapsto> i)))))"

text \<open>
  The statements of \<^verbatim>\<open>Watch\<close> on \<^verbatim>\<open>interval\<close>: the period of the ticker, or the error.
  \<^verbatim>\<open>
  tick = 2 * time.Second
  if interval != nil {
      if *interval <= 0 { return nil, fmt.Errorf(...) }
      tick = *interval
  }
  \<close>
\<close>

definition tickOf :: "int option \<Rightarrow> error + int" where
  "tickOf interval =
     (let tick = 2 * Second in
      case interval of
        None \<Rightarrow> Inr tick
      | Some d \<Rightarrow> if d \<le> 0 then Inl (IntervalError d) else Inr d)"

text \<open>
  What a call of \<^verbatim>\<open>Watch\<close> leaves behind: the two values it returns and the goroutine it
  has started, if any. The goroutine is the closure of the \<^verbatim>\<open>go\<close> statement: it holds the
  variables \<^verbatim>\<open>recurse\<close>, \<^verbatim>\<open>tick\<close> and \<^verbatim>\<open>infos\<close>, and nothing else refers to \<^verbatim>\<open>infos\<close>.
\<close>

datatype chan = Updates

record goroutine =
  g_recurse :: bool
  g_tick :: int
  g_infos :: infos

record watch_result =
  ret_chan :: "chan option"
  ret_err :: "error option"
  started :: "goroutine option"

text \<open>
  The environment of the setup: \<open>Abs\<close> is \<^verbatim>\<open>filepath.Abs\<close>, and \<open>tree root\<close> is what the
  initial walk finds at \<open>root\<close>.
\<close>

definition Watch :: "(string \<Rightarrow> syserr + string) \<Rightarrow> (string \<Rightarrow> fsnode) \<Rightarrow> string \<Rightarrow> bool \<Rightarrow> int option
      \<Rightarrow> watch_result" where
  "Watch Abs tree path recurse interval =
     (case Abs path of
        Inl err \<Rightarrow> \<lparr>ret_chan = None, ret_err = Some (PathError err), started = None\<rparr>
      | Inr root \<Rightarrow>
          (case tickOf interval of
             Inl err \<Rightarrow> \<lparr>ret_chan = None, ret_err = Some err, started = None\<rparr>
           | Inr tick \<Rightarrow>
               (case Walk (walkInit root recurse) root (tree root) Map.empty of
                  (Some werr, infos) \<Rightarrow> \<lparr>ret_chan = None, ret_err = Some werr, started = None\<rparr>
                | (None, infos) \<Rightarrow>
                    \<lparr>ret_chan = Some Updates, ret_err = None,
                     started = Some \<lparr>g_recurse = recurse, g_tick = tick, g_infos = infos\<rparr>\<rparr>)))"

section \<open>The goroutine: initial update and periodic scan\<close>

text \<open>
  A \<^verbatim>\<open>range\<close> over a Go map yields its keys in an order that the language leaves open. The
  order is a parameter here: a list \<open>keys\<close> of paths, of which the loop visits, in turn,
  those that are in the map when their turn comes. For a map that the loop body only reads,
  \<open>keys\<close> lists the map's keys, each once (and \<open>initial\<close> then has \<^verbatim>\<open>len(infos)\<close> elements). For a map that the body changes, a key deleted
  before its turn is not visited, and a key added during the loop is visited if \<open>keys\<close> has
  it after the point of its addition, and skipped otherwise.
  \<^verbatim>\<open>
  idx, initial := 0, make([]Update, len(infos))
  for p, fi := range infos {
      initial[idx] = Update{AbsPath: p, Prev: fi, WasAdded: true}
      idx++
  }
  \<close>
\<close>

fun initial :: "infos \<Rightarrow> string list \<Rightarrow> Update list" where
  "initial infos [] = []"
| "initial infos (p # keys) =
     (case infos p of
        None \<Rightarrow> initial infos keys
      | Some fi \<Rightarrow>
          \<lparr>AbsPath = p, Prev = Some fi, Next = None, Error = None,
           WasRemoved = False, WasAdded = True\<rparr> # initial infos keys)"

text \<open>
  The closure of the discovery walk, over \<^verbatim>\<open>recurse\<close>, \<^verbatim>\<open>infos\<close> and \<^verbatim>\<open>discovered\<close>:
  \<^verbatim>\<open>
  func(p string, i os.FileInfo, e error) error {
      if e != nil {
          return e
      } else if infos[p] == nil {
          infos[p] = i
          discovered = append(discovered, Update{AbsPath: p, Prev: i, WasAdded: true})
          if i.IsDir() && !recurse { return filepath.SkipDir }
      }
      return nil
  }
  \<close>
\<close>

definition walkDiscover :: "bool \<Rightarrow> (infos \<times> Update list) walkfunc" where
  "walkDiscover recurse p i e st =
     (case st of (infos, discovered) \<Rightarrow>
        (case e of
           Some err \<Rightarrow> (Some err, st)
         | None \<Rightarrow>
             (if infos p = None then
                (case i of
                   None \<Rightarrow> (Some NilDereference, st)
                 | Some fi \<Rightarrow>
                     (let st1 = (infos(p \<mapsto> fi),
                                 discovered @ [\<lparr>AbsPath = p, Prev = Some fi, Next = None, Error = None,
                                                WasRemoved = False, WasAdded = True\<rparr>])
                      in if IsDir fi \<and> \<not> recurse then (Some SkipDir, st1) else (None, st1)))
              else (None, st))))"

text \<open>
  The file system as one tick's scan sees it: \<open>Stat\<close> is \<^verbatim>\<open>os.Stat\<close>, and \<open>Tree p\<close> is what
  a walk rooted at \<open>p\<close> finds. The two are independent (a stat follows symbolic links, a
  walk does not), and a scan asks either for a path at most once, so nothing is assumed
  about the file system standing still during a scan.
\<close>

record filesys =
  Stat :: "string \<Rightarrow> syserr + fileinfo"
  Tree :: "string \<Rightarrow> fsnode"

text \<open>
  The body of the loop \<^verbatim>\<open>for path, prev := range infos\<close> of one tick. The value
  \<^verbatim>\<open>*up\<close> is appended to \<^verbatim>\<open>discovered\<close> before the walk; the walk's error is then assigned to
  \<^verbatim>\<open>up.Error\<close>, and \<^verbatim>\<open>up\<close> is not read again.
  \<^verbatim>\<open>
  next, err := os.Stat(path)
  if err != nil {
      if os.IsNotExist(err) { delete(infos, path) }
      discovered = append(discovered, Update{AbsPath: path, Prev: prev, Error: err, WasRemoved: true})
  } else if prev.ModTime().Before(next.ModTime()) || prev.Size() != next.Size() {
      up := &Update{AbsPath: path, Prev: prev, Next: next}
      discovered = append(discovered, *up)
      infos[path] = next
      if next.IsDir() { up.Error = filepath.Walk(path, func ...) }
  }
  \<close>
\<close>

definition scanPath :: "filesys \<Rightarrow> bool \<Rightarrow> string \<Rightarrow> fileinfo \<Rightarrow> infos \<times> Update list \<Rightarrow> infos \<times> Update list" where
  "scanPath fs recurse path prev st =
     (case st of (infos, discovered) \<Rightarrow>
        (case Stat fs path of
           Inl e \<Rightarrow>
             (let err = PathError e in
              ((if IsNotExist err then infos(path := None) else infos),
               discovered @ [\<lparr>AbsPath = path, Prev = Some prev, Next = None, Error = Some err,
                              WasRemoved = True, WasAdded = False\<rparr>]))
         | Inr next \<Rightarrow>
             (if ModTime prev < ModTime next \<or> Size prev \<noteq> Size next then
                (let up = \<lparr>AbsPath = path, Prev = Some prev, Next = Some next, Error = None,
                           WasRemoved = False, WasAdded = False\<rparr>;
                     st1 = (infos(path \<mapsto> next), discovered @ [up])
                 in if IsDir next then
                      (case Walk (walkDiscover recurse) path (Tree fs path) st1 of
                         (werr, st2) \<Rightarrow> (let up2 = up\<lparr>Error := werr\<rparr> in st2))
                    else st1)
              else st)))"

fun scan :: "filesys \<Rightarrow> bool \<Rightarrow> string list \<Rightarrow> infos \<times> Update list \<Rightarrow> infos \<times> Update list" where
  "scan fs recurse [] st = st"
| "scan fs recurse (path # keys) st =
     (case fst st path of
        None \<Rightarrow> scan fs recurse keys st
      | Some prev \<Rightarrow> scan fs recurse keys (scanPath fs recurse path prev st))"

text \<open>
  One pass of the \<^verbatim>\<open>select\<close> statement. Go's \<^verbatim>\<open>select\<close> blocks while no case can proceed,
  takes the one case that can, and if both can, takes one of them by a pseudo-random
  choice: \<open>pick\<close> is that choice. \<open>snapshot\<close> and \<open>key_order\<close> are the file system and the
  order of the \<^verbatim>\<open>range\<close> loop for the scan, if this pass scans.
\<close>

datatype select_case = CaseTick | CaseDone

record pass =
  tick_ready :: bool
  done_ready :: bool
  pick :: select_case
  snapshot :: filesys
  key_order :: "string list"

definition select :: "pass \<Rightarrow> select_case option" where
  "select p =
     (if tick_ready p \<and> done_ready p then Some (pick p)
      else if tick_ready p then Some CaseTick
      else if done_ready p then Some CaseDone
      else None)"

text \<open>
  What the goroutine does, in order: a send on \<^verbatim>\<open>updates\<close> that a receiver has taken,
  \<^verbatim>\<open>time.NewTicker\<close>, and the two deferred calls \<^verbatim>\<open>close(updates)\<close> and \<^verbatim>\<open>ticker.Stop()\<close>
  (deferred calls run last-in first-out).
\<close>

datatype action = Send "Update list" | NewTicker int | CloseUpdates | StopTicker

text \<open>
  The \<^verbatim>\<open>for { select { ... } }\<close> loop over the passes that the environment offers; when
  they run out the goroutine is still waiting in \<^verbatim>\<open>select\<close>.
  \<^verbatim>\<open>
  case <-ticker.C:
      var discovered []Update
      for path, prev := range infos { ... }
      if len(discovered) > 0 { updates <- discovered }
  case <-done:
      return
  \<close>
\<close>

fun loop :: "bool \<Rightarrow> infos \<Rightarrow> pass list \<Rightarrow> action list" where
  "loop recurse infos [] = []"
| "loop recurse infos (p # ps) =
     (case select p of
        None \<Rightarrow> loop recurse infos ps
      | Some CaseDone \<Rightarrow> [CloseUpdates, StopTicker]
      | Some CaseTick \<Rightarrow>
          (case scan (snapshot p) recurse (key_order p) (infos, []) of
             (infos1, discovered) \<Rightarrow>
               (if length discovered > 0 then [Send discovered] else []) @ loop recurse infos1 ps))"

text \<open>The body of the \<^verbatim>\<open>go\<close> statement; \<open>first_keys\<close> is the order of the first \<^verbatim>\<open>range\<close> loop.\<close>

definition run :: "goroutine \<Rightarrow> string list \<Rightarrow> pass list \<Rightarrow> action list" where
  "run g first_keys ps =
     Send (initial (g_infos g) first_keys) # NewTicker (g_tick g) # loop (g_recurse g) (g_infos g) ps"

section \<open>Auxiliary notions and example inputs\<close>

text \<open>
  How a discovery walk changes the pair of \<^verbatim>\<open>infos\<close> and \<^verbatim>\<open>discovered\<close>: it appends updates
  that are flagged as added, for paths that were not tracked, and tracks these paths with
  the metadata it reports; entries that were tracked are left as they are.
\<close>

definition added :: "string \<Rightarrow> fileinfo \<Rightarrow> Update" where
  "added p fi = \<lparr>AbsPath = p, Prev = Some fi, Next = None, Error = None,
                 WasRemoved = False, WasAdded = True\<rparr>"

definition grows :: "infos \<times> Update list \<Rightarrow> infos \<times> Update list \<Rightarrow> bool" where
  "grows st st' =
     (\<exists>new. snd st' = snd st @ new
        \<and> (\<forall>u \<in> set new. fst st (AbsPath u) = None
               \<and> (\<exists>fi. fst st' (AbsPath u) = Some fi \<and> u = added (AbsPath u) fi))
        \<and> (\<forall>p. fst st p \<noteq> None \<longrightarrow> fst st' p = fst st p)
        \<and> (\<forall>p. fst st p = None \<and> fst st' p \<noteq> None \<longrightarrow> p \<in> AbsPath ` set new))"

text \<open>The two other kinds of update that a scan appends.\<close>

definition removed :: "string \<Rightarrow> fileinfo \<Rightarrow> error \<Rightarrow> Update" where
  "removed p prev err = \<lparr>AbsPath = p, Prev = Some prev, Next = None, Error = Some err,
                         WasRemoved = True, WasAdded = False\<rparr>"

definition modified :: "string \<Rightarrow> fileinfo \<Rightarrow> fileinfo \<Rightarrow> Update" where
  "modified p prev next = \<lparr>AbsPath = p, Prev = Some prev, Next = Some next, Error = None,
                           WasRemoved = False, WasAdded = False\<rparr>"

text \<open>The test of \<^verbatim>\<open>Watch\<close> for a change:
  \<^verbatim>\<open>prev.ModTime().Before(next.ModTime()) || prev.Size() != next.Size()\<close>.\<close>

definition changed :: "fileinfo \<Rightarrow> fileinfo \<Rightarrow> bool" where
  "changed prev next = (ModTime prev < ModTime next \<or> Size prev \<noteq> Size next)"

text \<open>The updates of a batch that are about one path.\<close>

definition about :: "string \<Rightarrow> Update list \<Rightarrow> Update list" where
  "about p us = filter (\<lambda>u. AbsPath u = p) us"

subsection \<open>Example: a directory with one file\<close>

text \<open>
  The directory \<^verbatim>\<open>/w\<close> holds the file \<^verbatim>\<open>a\<close>. \<open>ex_g\<close> is the goroutine that \<^verbatim>\<open>Watch\<close>
  starts for it when no interval is given, \<open>ex_keys\<close> an order of its two keys.
\<close>

definition dir_at :: "int \<Rightarrow> fileinfo" where
  "dir_at t = \<lparr>IsDir = True, ModTime = t, Size = 4096\<rparr>"

definition file_at :: "int \<Rightarrow> int \<Rightarrow> fileinfo" where
  "file_at t n = \<lparr>IsDir = False, ModTime = t, Size = n\<rparr>"

definition ex_tree :: fsnode where
  "ex_tree = Node (Inr (dir_at 10)) None [(''a'', Node (Inr (file_at 10 0)) None [])]"

definition ex_infos :: infos where
  "ex_infos = [''/w'' \<mapsto> dir_at 10, ''/w/a'' \<mapsto> file_at 10 0]"

definition ex_g :: goroutine where
  "ex_g = \<lparr>g_recurse = False, g_tick = 2000000000, g_infos = ex_infos\<rparr>"

definition ex_keys :: "string list" where
  "ex_keys = [''/w/a'', ''/w'']"

definition ex_initial :: "Update list" where
  "ex_initial = [added ''/w/a'' (file_at 10 0), added ''/w'' (dir_at 10)]"

text \<open>A pass of the loop in which only the ticker is ready.\<close>

definition tick_pass :: "filesys \<Rightarrow> pass" where
  "tick_pass fs = \<lparr>tick_ready = True, done_ready = False, pick = CaseTick,
                   snapshot = fs, key_order = ex_keys\<rparr>"

text \<open>A pass in which only \<^verbatim>\<open>done\<close> is ready, and one in which both are ready and the
  choice falls on the ticker.\<close>

definition done_pass :: "filesys \<Rightarrow> pass" where
  "done_pass fs = \<lparr>tick_ready = False, done_ready = True, pick = CaseTick,
                   snapshot = fs, key_order = ex_keys\<rparr>"

definition both_pass :: "filesys \<Rightarrow> pass" where
  "both_pass fs = \<lparr>tick_ready = True, done_ready = True, pick = CaseTick,
                   snapshot = fs, key_order = ex_keys\<rparr>"

text \<open>The file system at later ticks: nothing has changed; three bytes were written to
  \<^verbatim>\<open>a\<close>; \<^verbatim>\<open>a\<close> was deleted; \<^verbatim>\<open>a\<close> was created again; \<^verbatim>\<open>a\<close> cannot be statted for lack of
  permission; \<^verbatim>\<open>/w\<close> was touched and cannot be read.\<close>

definition fs_same :: filesys where
  "fs_same = \<lparr>Stat = (\<lambda>p. if p = ''/w'' then Inr (dir_at 10) else Inr (file_at 10 0)),
              Tree = (\<lambda>p. ex_tree)\<rparr>"

definition fs_written :: filesys where
  "fs_written = \<lparr>Stat = (\<lambda>p. if p = ''/w'' then Inr (dir_at 10) else Inr (file_at 20 3)),
                 Tree = (\<lambda>p. ex_tree)\<rparr>"




definition fs_unreadable :: filesys where
  "fs_unreadable = \<lparr>Stat = (\<lambda>p. if p = ''/w'' then Inr (dir_at 20) else Inr (file_at 10 0)),
                    Tree = (\<lambda>p. Node (Inr (dir_at 20)) (Some EACCES) [])\<rparr>"

subsection \<open>Example: a directory with a subdirectory, watched without recursion\<close>

text \<open>
  The directory \<^verbatim>\<open>/r\<close> holds the empty directory \<^verbatim>\<open>sub\<close>; at a later tick the file
  \<^verbatim>\<open>/r/sub/f\<close> has been created, which has changed the modification time of \<^verbatim>\<open>/r/sub\<close>.
\<close>

definition sub_tree :: fsnode where
  "sub_tree = Node (Inr (dir_at 10)) None [(''sub'', Node (Inr (dir_at 10)) None [])]"

definition sub_infos :: infos where
  "sub_infos = [''/r'' \<mapsto> dir_at 10, ''/r/sub'' \<mapsto> dir_at 10]"

definition sub_g :: goroutine where
  "sub_g = \<lparr>g_recurse = False, g_tick = 2000000000, g_infos = sub_infos\<rparr>"

definition sub_keys :: "string list" where
  "sub_keys = [''/r'', ''/r/sub'']"

definition fs_sub_file :: filesys where
  "fs_sub_file = \<lparr>Stat = (\<lambda>p. if p = ''/r'' then Inr (dir_at 10) else Inr (dir_at 20)),
                  Tree = (\<lambda>p. Node (Inr (dir_at 20)) None [(''f'', Node (Inr (file_at 20 0)) None [])])\<rparr>"

definition sub_pass :: pass where
  "sub_pass = \<lparr>tick_ready = True, done_ready = False, pick = CaseTick,
               snapshot = fs_sub_file, key_order = sub_keys\<rparr>"

section \<open>Properties of the walk\<close>

declare walk.simps [simp del]

lemma walk_rel_both:
  assumes step: "\<And>p i e s r s'. fn p i e s = (r, s') \<Longrightarrow> R s s'"
    and refl: "\<And>s. R s s"
    and trans: "\<And>a b c. R a b \<Longrightarrow> R b c \<Longrightarrow> R a c"
  shows "walk fn path info rderr names s = (r, s') \<Longrightarrow> R s s'"
    and "walk_names fn path names s = (r, s') \<Longrightarrow> R s s'"
  using step
proof (induction fn path info rderr names s and fn path names s arbitrary: r s' and r s'
    rule: walk_walk_names.induct)
  case (1 walkFn path info rderr names s)
  show ?case
  proof (cases "IsDir info")
    case False
    with "1.prems" show ?thesis by (auto simp: walk.simps)
  next
    case True
    obtain err1 s1 where f: "walkFn path (Some info) (map_option PathError rderr) s = (err1, s1)"
      by (cases "walkFn path (Some info) (map_option PathError rderr) s")
    have r1: "R s s1" using f "1.prems" by blast
    show ?thesis
    proof (cases "rderr \<noteq> None \<or> err1 \<noteq> None")
      case True
      with "1.prems" \<open>IsDir info\<close> f r1 show ?thesis by (auto simp: walk.simps)
    next
      case False
      with "1.prems" \<open>IsDir info\<close> f have "walk_names walkFn path names s1 = (r, s')"
        by (auto simp: walk.simps)
      with "1.IH"[OF _ f[symmetric]] \<open>IsDir info\<close> False "1.prems"(2) have "R s1 s'" by auto
      with r1 show ?thesis by (rule trans)
    qed
  qed
next
  case (2 walkFn path s)
  then show ?case by (auto intro: refl)
next
  case (3 walkFn path name e rderr sub rest s)
  obtain err s1 where f: "walkFn (Join path name) None (Some (PathError e)) s = (err, s1)"
    by (cases "walkFn (Join path name) None (Some (PathError e)) s")
  have r1: "R s s1" using f "3.prems" by blast
  show ?case
  proof (cases "err \<noteq> None \<and> err \<noteq> Some SkipDir")
    case True
    with "3.prems" f r1 show ?thesis by auto
  next
    case False
    with "3.prems" f have "walk_names walkFn path rest s1 = (r, s')" by auto
    with "3.IH"[OF f[symmetric]] False "3.prems"(2) have "R s1 s'" by auto
    with r1 show ?thesis by (rule trans)
  qed
next
  case (4 walkFn path name fileInfo rderr sub rest s)
  obtain err s1 where f: "walk walkFn (Join path name) fileInfo rderr sub s = (err, s1)"
    by (cases "walk walkFn (Join path name) fileInfo rderr sub s")
  have r1: "R s s1" using f "4.prems"(2) by (rule "4.IH"(1))
  show ?case
  proof (cases "err \<noteq> None \<and> (\<not> IsDir fileInfo \<or> err \<noteq> Some SkipDir)")
    case True
    with "4.prems" f r1 show ?thesis by auto
  next
    case False
    with "4.prems" f have "walk_names walkFn path rest s1 = (r, s')" by auto
    with "4.IH"(2)[OF f[symmetric]] False "4.prems"(2) have "R s1 s'" by auto
    with r1 show ?thesis by (rule trans)
  qed
qed

lemma Walk_rel:
  assumes step: "\<And>p i e s r s'. fn p i e s = (r, s') \<Longrightarrow> R s s'"
    and refl: "\<And>s. R s s"
    and trans: "\<And>a b c. R a b \<Longrightarrow> R b c \<Longrightarrow> R a c"
    and W: "Walk fn root t s = (r, s')"
  shows "R s s'"
proof (cases "lstat t")
  case (Inl e)
  with W obtain r0 where "fn root None (Some (PathError e)) s = (r0, s')"
    by (auto simp: Walk_def split: prod.splits)
  then show ?thesis by (rule step)
next
  case (Inr info)
  with W obtain r0 where "walk fn root info (readDirErr t) (entries t) s = (r0, s')"
    by (auto simp: Walk_def split: prod.splits)
  from this step refl trans show ?thesis
    by (rule walk_rel_both(1)[where R = R and fn = fn, rotated 3])
qed


subsection \<open>The initial walk\<close>

lemma walkInit_keeps:
  "walkInit root recurse p i e s = (r, s') \<Longrightarrow> s q \<noteq> None \<longrightarrow> s' q \<noteq> None"
  by (auto simp: walkInit_def split: option.splits if_splits)

lemma Walk_walkInit_keeps:
  assumes "Walk (walkInit root recurse) p t s = (r, s')" and "s q \<noteq> None"
  shows "s' q \<noteq> None"
proof -
  have "s q \<noteq> None \<longrightarrow> s' q \<noteq> None"
    by (rule Walk_rel[where R = "\<lambda>a b. a q \<noteq> None \<longrightarrow> b q \<noteq> None" and fn = "walkInit root recurse",
          OF _ _ _ assms(1)])
       (auto dest: walkInit_keeps)
  with assms(2) show ?thesis by simp
qed

lemma walk_walkInit_keeps:
  assumes "walk (walkInit root recurse) p i rd ns s = (r, s')" and "s q \<noteq> None"
  shows "s' q \<noteq> None"
proof -
  have "s q \<noteq> None \<longrightarrow> s' q \<noteq> None"
    by (rule walk_rel_both(1)[where R = "\<lambda>a b. a q \<noteq> None \<longrightarrow> b q \<noteq> None"
          and fn = "walkInit root recurse", OF _ _ _ assms(1)])
       (auto dest: walkInit_keeps)
  with assms(2) show ?thesis by simp
qed

lemma walk_names_walkInit_keeps:
  assumes "walk_names (walkInit root recurse) p ns s = (r, s')" and "s q \<noteq> None"
  shows "s' q \<noteq> None"
proof -
  have "s q \<noteq> None \<longrightarrow> s' q \<noteq> None"
    by (rule walk_rel_both(2)[where R = "\<lambda>a b. a q \<noteq> None \<longrightarrow> b q \<noteq> None"
          and fn = "walkInit root recurse", OF _ _ _ assms(1)])
       (auto dest: walkInit_keeps)
  with assms(2) show ?thesis by simp
qed

lemma initial_walk_tracks_root:
  assumes W: "Walk (walkInit root recurse) root t Map.empty = (None, infos)"
  shows "infos root \<noteq> None"
proof (cases "lstat t")
  case (Inl e)
  with W show ?thesis
    by (auto simp: Walk_def walkInit_def split: if_splits)
next
  case (Inr info)
  obtain r0 s0 where w: "walk (walkInit root recurse) root info (readDirErr t) (entries t) Map.empty = (r0, s0)"
    by (cases "walk (walkInit root recurse) root info (readDirErr t) (entries t) Map.empty")
  with W Inr have s0: "s0 = infos" and r0: "r0 = None \<or> r0 = Some SkipDir"
    by (auto simp: Walk_def split: if_splits)
  show ?thesis
  proof (cases "IsDir info")
    case False
    with w s0 show ?thesis by (auto simp: walk.simps walkInit_def)
  next
    case True
    show ?thesis
    proof (cases "readDirErr t")
      case (Some e)
      with w True r0 show ?thesis by (auto simp: walk.simps walkInit_def)
    next
      case None
      with w True have "walk_names (walkInit root recurse) root (entries t) (Map.empty(root \<mapsto> info)) = (r0, s0)"
        by (auto simp: walk.simps walkInit_def)
      then have "s0 root \<noteq> None"
        by (rule walk_names_walkInit_keeps) simp
      with s0 show ?thesis by simp
    qed
  qed
qed

lemma Watch_started:
  assumes "started (Watch Abs tree path recurse interval) = Some g"
  shows "\<exists>root tick. Abs path = Inr root \<and> tickOf interval = Inr tick
           \<and> Walk (walkInit root recurse) root (tree root) Map.empty = (None, g_infos g)
           \<and> g_tick g = tick \<and> g_recurse g = recurse"
  using assms
  by (auto simp: Watch_def split: sum.splits prod.splits option.splits)

subsection \<open>The initial update\<close>

lemma initial_filter:
  "initial infos ks =
     map (\<lambda>p. \<lparr>AbsPath = p, Prev = infos p, Next = None, Error = None, WasRemoved = False, WasAdded = True\<rparr>)
       (filter (\<lambda>p. infos p \<noteq> None) ks)"
  by (induction ks) (auto split: option.splits)

lemma initial_for_path:
  assumes "distinct ks" and "p \<in> set ks" and "infos p = Some fi"
  shows "filter (\<lambda>u. AbsPath u = p) (initial infos ks) =
           [\<lparr>AbsPath = p, Prev = Some fi, Next = None, Error = None, WasRemoved = False, WasAdded = True\<rparr>]"
  using assms
proof (induction ks)
  case Nil
  then show ?case by simp
next
  case (Cons k ks)
  show ?case
  proof (cases "k = p")
    case True
    with Cons.prems have "p \<notin> set ks" by simp
    then have "filter (\<lambda>u. AbsPath u = p) (initial infos ks) = []"
      by (auto simp: initial_filter filter_empty_conv)
    with True Cons.prems show ?thesis by simp
  next
    case False
    with Cons show ?thesis by (auto split: option.splits)
  qed
qed

lemma initial_length:
  assumes "distinct ks" and "dom infos \<subseteq> set ks"
  shows "length (initial infos ks) = card (dom infos)"
proof -
  have "set (filter (\<lambda>p. infos p \<noteq> None) ks) = dom infos"
    using assms(2) by (auto simp: dom_def)
  moreover have "distinct (filter (\<lambda>p. infos p \<noteq> None) ks)"
    using assms(1) by simp
  ultimately have "card (dom infos) = length (filter (\<lambda>p. infos p \<noteq> None) ks)"
    using distinct_card by metis
  then show ?thesis by (simp add: initial_filter)
qed

lemma initial_tracked: "u \<in> set (initial infos ks) \<Longrightarrow> infos (AbsPath u) \<noteq> None"
  by (auto simp: initial_filter)

subsection \<open>The discovery walk\<close>

lemma grows_refl: "grows st st"
  by (auto simp: grows_def)

lemma grows_trans:
  assumes "grows a b" and "grows b c"
  shows "grows a c"
proof -
  from assms(1) obtain n1 where n1: "snd b = snd a @ n1"
    "\<forall>u \<in> set n1. fst a (AbsPath u) = None \<and> (\<exists>fi. fst b (AbsPath u) = Some fi \<and> u = added (AbsPath u) fi)"
    "\<forall>p. fst a p \<noteq> None \<longrightarrow> fst b p = fst a p"
    "\<forall>p. fst a p = None \<and> fst b p \<noteq> None \<longrightarrow> p \<in> AbsPath ` set n1"
    unfolding grows_def by blast
  from assms(2) obtain n2 where n2: "snd c = snd b @ n2"
    "\<forall>u \<in> set n2. fst b (AbsPath u) = None \<and> (\<exists>fi. fst c (AbsPath u) = Some fi \<and> u = added (AbsPath u) fi)"
    "\<forall>p. fst b p \<noteq> None \<longrightarrow> fst c p = fst b p"
    "\<forall>p. fst b p = None \<and> fst c p \<noteq> None \<longrightarrow> p \<in> AbsPath ` set n2"
    unfolding grows_def by blast
  have 1: "snd c = snd a @ (n1 @ n2)" using n1(1) n2(1) by simp
  have 2: "\<forall>u \<in> set (n1 @ n2). fst a (AbsPath u) = None
             \<and> (\<exists>fi. fst c (AbsPath u) = Some fi \<and> u = added (AbsPath u) fi)"
  proof
    fix u assume "u \<in> set (n1 @ n2)"
    then consider "u \<in> set n1" | "u \<in> set n2" by auto
    then show "fst a (AbsPath u) = None \<and> (\<exists>fi. fst c (AbsPath u) = Some fi \<and> u = added (AbsPath u) fi)"
    proof cases
      case 1
      with n1(2) obtain fi where "fst a (AbsPath u) = None" "fst b (AbsPath u) = Some fi" "u = added (AbsPath u) fi"
        by blast
      moreover from this n2(3) have "fst c (AbsPath u) = Some fi" by auto
      ultimately show ?thesis by blast
    next
      case 2
      with n2(2) obtain fi where b: "fst b (AbsPath u) = None" "fst c (AbsPath u) = Some fi" "u = added (AbsPath u) fi"
        by blast
      from b(1) n1(3) have "fst a (AbsPath u) = None" by (cases "fst a (AbsPath u)") auto
      with b show ?thesis by blast
    qed
  qed
  have 3: "\<forall>p. fst a p \<noteq> None \<longrightarrow> fst c p = fst a p"
    using n1(3) n2(3) by auto
  have 4: "\<forall>p. fst a p = None \<and> fst c p \<noteq> None \<longrightarrow> p \<in> AbsPath ` set (n1 @ n2)"
  proof (intro allI impI)
    fix p assume a: "fst a p = None \<and> fst c p \<noteq> None"
    show "p \<in> AbsPath ` set (n1 @ n2)"
    proof (cases "fst b p")
      case None
      with a n2(4) have "p \<in> AbsPath ` set n2" by blast
      then show ?thesis by auto
    next
      case (Some v)
      with a n1(4) have "p \<in> AbsPath ` set n1" by auto
      then show ?thesis by auto
    qed
  qed
  from 1 2 3 4 show ?thesis unfolding grows_def by blast
qed

lemma walkDiscover_grows: "walkDiscover recurse p i e st = (r, st') \<Longrightarrow> grows st st'"
  by (cases st) (auto simp: walkDiscover_def grows_def added_def Let_def split: option.splits if_splits)

lemma Walk_discover_grows:
  assumes "Walk (walkDiscover recurse) p t st = (r, st')"
  shows "grows st st'"
  by (rule Walk_rel[where R = grows and fn = "walkDiscover recurse", OF _ _ _ assms])
     (auto intro: grows_refl grows_trans walkDiscover_grows)

subsection \<open>One path of a scan\<close>

lemma about_simps [simp]:
  "about p [] = []"
  "about p (us @ vs) = about p us @ about p vs"
  "about p (u # us) = (if AbsPath u = p then u # about p us else about p us)"
  by (simp_all add: about_def)

lemma AbsPath_simps [simp]:
  "AbsPath (added p fi) = p"
  "AbsPath (removed p prev err) = p"
  "AbsPath (modified p prev next) = p"
  by (simp_all add: added_def removed_def modified_def)

lemma scanPath_failed:
  assumes "Stat fs path = Inl e"
  shows "scanPath fs recurse path prev (infos, d) =
           ((if e = ENOENT then infos(path := None) else infos), d @ [removed path prev (PathError e)])"
  using assms by (cases e) (simp_all add: scanPath_def removed_def)

lemma scanPath_unchanged:
  assumes "Stat fs path = Inr next" and "\<not> changed prev next"
  shows "scanPath fs recurse path prev st = st"
  using assms by (cases st) (simp add: scanPath_def changed_def)

lemma scanPath_changed:
  assumes "Stat fs path = Inr next" and "changed prev next"
  shows "grows (infos(path \<mapsto> next), d @ [modified path prev next]) (scanPath fs recurse path prev (infos, d))"
proof (cases "IsDir next")
  case False
  with assms show ?thesis
    by (simp add: scanPath_def changed_def modified_def grows_refl)
next
  case True
  obtain werr st2 where w: "Walk (walkDiscover recurse) path (Tree fs path)
      (infos(path \<mapsto> next), d @ [modified path prev next]) = (werr, st2)"
    by (cases "Walk (walkDiscover recurse) path (Tree fs path) (infos(path \<mapsto> next), d @ [modified path prev next])")
  then have "grows (infos(path \<mapsto> next), d @ [modified path prev next]) st2"
    by (rule Walk_discover_grows)
  moreover have "scanPath fs recurse path prev (infos, d) = st2"
    using assms True w by (simp add: scanPath_def changed_def modified_def Let_def)
  ultimately show ?thesis by simp
qed

text \<open>What \<open>grows\<close> says about one path.\<close>

lemma grows_tracked:
  assumes "grows (infos, d) (infos', d')" and "infos p \<noteq> None"
  shows "infos' p = infos p" and "about p d' = about p d"
proof -
  from assms(1) obtain new where n: "d' = d @ new"
    "\<forall>u \<in> set new. infos (AbsPath u) = None"
    "\<forall>p. infos p \<noteq> None \<longrightarrow> infos' p = infos p"
    unfolding grows_def by auto
  from n(3) assms(2) show "infos' p = infos p" by simp
  from n(2) assms(2) have "about p new = []"
    by (auto simp: about_def filter_empty_conv)
  with n(1) show "about p d' = about p d" by simp
qed


subsection \<open>The loop over the tracked paths\<close>



lemma scanPath_other:
  assumes "k \<noteq> p" and "infos p \<noteq> None"
    and "scanPath fs recurse k kprev (infos, d) = (infos', d')"
  shows "infos' p = infos p \<and> about p d' = about p d"
proof (cases "Stat fs k")
  case (Inl e)
  with assms show ?thesis by (auto simp: scanPath_failed)
next
  case (Inr nxt)
  show ?thesis
  proof (cases "changed kprev nxt")
    case False
    with Inr assms show ?thesis by (simp add: scanPath_unchanged)
  next
    case True
    from scanPath_changed[OF Inr True, of infos d recurse] assms(3)
    have g: "grows (infos(k \<mapsto> nxt), d @ [modified k kprev nxt]) (infos', d')" by simp
    have "(infos(k \<mapsto> nxt)) p \<noteq> None" using assms(1,2) by simp
    from grows_tracked[OF g this] assms(1) show ?thesis by simp
  qed
qed


text \<open>A path that is tracked and is not visited again keeps its entry and gets no update.\<close>

lemma scan_not_visited:
  assumes "p \<notin> set keys" and "infos p \<noteq> None"
    and "scan fs recurse keys (infos, d) = (infos', d')"
  shows "infos' p = infos p \<and> about p d' = about p d"
  using assms
proof (induction keys arbitrary: infos d)
  case Nil
  then show ?case by simp
next
  case (Cons k keys)
  from Cons.prems(1) have kp: "k \<noteq> p" and nin: "p \<notin> set keys" by auto
  show ?case
  proof (cases "infos k")
    case None
    with Cons.prems have "scan fs recurse keys (infos, d) = (infos', d')" by simp
    from Cons.IH[OF nin Cons.prems(2) this] show ?thesis .
  next
    case (Some kprev)
    obtain infos1 d1 where s1: "scanPath fs recurse k kprev (infos, d) = (infos1, d1)"
      by (cases "scanPath fs recurse k kprev (infos, d)")
    from scanPath_other[OF kp Cons.prems(2) s1]
    have e1: "infos1 p = infos p" "about p d1 = about p d" by auto
    from Cons.prems(3) Some s1 have "scan fs recurse keys (infos1, d1) = (infos', d')" by simp
    from Cons.IH[OF nin _ this] e1 Cons.prems(2) show ?thesis by simp
  qed
qed



text \<open>
  The loop reaches a tracked path with its entry as it was, and no update about it so far;
  the path is not among the keys that follow.
\<close>

lemma scan_visit:
  assumes "infos p = Some prev" and "distinct keys" and "p \<in> set keys"
    and "scan fs recurse keys (infos, d) = (infos', d')"
  shows "\<exists>infos0 d0 keys2. p \<notin> set keys2 \<and> infos0 p = Some prev \<and> about p d0 = about p d
           \<and> scan fs recurse keys2 (scanPath fs recurse p prev (infos0, d0)) = (infos', d')"
  using assms
proof (induction keys arbitrary: infos d)
  case Nil
  then show ?case by simp
next
  case (Cons k keys)
  show ?case
  proof (cases "k = p")
    case True
    with Cons.prems have "p \<notin> set keys" "infos p = Some prev" "about p d = about p d"
      "scan fs recurse keys (scanPath fs recurse p prev (infos, d)) = (infos', d')"
      by auto
    then show ?thesis by blast
  next
    case False
    with Cons.prems have dk: "distinct keys" and pk: "p \<in> set keys" by auto
    show ?thesis
    proof (cases "infos k")
      case None
      with Cons.prems have "scan fs recurse keys (infos, d) = (infos', d')" by simp
      from Cons.IH[OF Cons.prems(1) dk pk this] show ?thesis .
    next
      case (Some kprev)
      obtain infos1 d1 where s1: "scanPath fs recurse k kprev (infos, d) = (infos1, d1)"
        by (cases "scanPath fs recurse k kprev (infos, d)")
      from Cons.prems(1) have "infos p \<noteq> None" by simp
      from scanPath_other[OF False this s1] Cons.prems(1)
      have e1: "infos1 p = Some prev" "about p d1 = about p d" by auto
      from Cons.prems(4) Some s1 have "scan fs recurse keys (infos1, d1) = (infos', d')" by simp
      from Cons.IH[OF e1(1) dk pk this] e1(2) show ?thesis by simp
    qed
  qed
qed

lemma scan_stat_ok:
  assumes "infos p = Some prev" and "Stat fs p = Inr nxt"
    and "distinct keys" and "p \<in> set keys"
    and "scan fs recurse keys (infos, d) = (infos', d')"
  shows "infos' p = Some (if changed prev nxt then nxt else prev)
       \<and> about p d' = about p d @ (if changed prev nxt then [modified p prev nxt] else [])"
proof -
  from scan_visit[OF assms(1,3,4,5)] obtain infos0 d0 keys2 where
    v: "p \<notin> set keys2" "infos0 p = Some prev" "about p d0 = about p d"
       "scan fs recurse keys2 (scanPath fs recurse p prev (infos0, d0)) = (infos', d')"
    by blast
  obtain infos1 d1 where s1: "scanPath fs recurse p prev (infos0, d0) = (infos1, d1)"
    by (cases "scanPath fs recurse p prev (infos0, d0)")
  have "infos1 p = Some (if changed prev nxt then nxt else prev)
      \<and> about p d1 = about p d0 @ (if changed prev nxt then [modified p prev nxt] else [])"
  proof (cases "changed prev nxt")
    case False
    with scanPath_unchanged[OF assms(2) False] s1 v(2) show ?thesis by simp
  next
    case True
    from scanPath_changed[OF assms(2) True, of infos0 d0 recurse] s1
    have g: "grows (infos0(p \<mapsto> nxt), d0 @ [modified p prev nxt]) (infos1, d1)" by simp
    have "(infos0(p \<mapsto> nxt)) p \<noteq> None" by simp
    from grows_tracked[OF g this] True show ?thesis by simp
  qed
  moreover from this have n1: "infos1 p \<noteq> None" by simp
  from v(4) s1 have "scan fs recurse keys2 (infos1, d1) = (infos', d')" by simp
  from scan_not_visited[of p keys2 infos1 fs recurse d1 infos' d', OF v(1) n1 this]
  have "infos' p = infos1 p \<and> about p d' = about p d1" .
  ultimately show ?thesis using v(3) by simp
qed


subsection \<open>The examples, evaluated\<close>

lemmas ex_defs = ex_tree_def ex_infos_def ex_g_def ex_keys_def ex_initial_def dir_at_def file_at_def
  added_def removed_def modified_def tick_pass_def done_pass_def both_pass_def select_def
lemmas code_defs = Watch_def tickOf_def Second_def Walk_def walk.simps walkInit_def walkDiscover_def
  scanPath_def Join_def run_def

lemma ex_Watch:
  "Watch Inr (\<lambda>_. ex_tree) ''/w'' False None =
     \<lparr>ret_chan = Some Updates, ret_err = None, started = Some ex_g\<rparr>"
  by (simp add: code_defs ex_defs)

lemma ex_keys_ok: "distinct ex_keys \<and> dom (g_infos ex_g) \<subseteq> set ex_keys"
  by (simp add: ex_defs)

lemma ex_initial: "initial ex_infos ex_keys = ex_initial"
  by (simp add: ex_defs)

lemma ex_scan_same: "scan fs_same False ex_keys (ex_infos, []) = (ex_infos, [])"
  by (simp add: code_defs ex_defs fs_same_def)

lemma ex_scan_written:
  "scan fs_written False ex_keys (ex_infos, []) =
     (ex_infos(''/w/a'' \<mapsto> file_at 20 3), [modified ''/w/a'' (file_at 10 0) (file_at 20 3)])"
  by (simp add: code_defs ex_defs fs_written_def)




lemma ex_scan_unreadable:
  "scan fs_unreadable False ex_keys (ex_infos, []) =
     (ex_infos(''/w'' \<mapsto> dir_at 20), [modified ''/w'' (dir_at 10) (dir_at 20)])"
  by (simp add: code_defs ex_defs fs_unreadable_def)

lemma ex_walk_unreadable:
  "fst (Walk (walkDiscover False) ''/w'' (Tree fs_unreadable ''/w'')
     (ex_infos(''/w'' \<mapsto> dir_at 20), [modified ''/w'' (dir_at 10) (dir_at 20)])) = Some (PathError EACCES)"
  by (simp add: code_defs ex_defs fs_unreadable_def)

lemma sub_Watch:
  "Watch Inr (\<lambda>_. sub_tree) ''/r'' False None =
     \<lparr>ret_chan = Some Updates, ret_err = None, started = Some sub_g\<rparr>"
  by (simp add: code_defs ex_defs sub_tree_def sub_g_def sub_infos_def)

lemma sub_scan:
  "scan fs_sub_file False sub_keys (sub_infos, []) =
     (sub_infos(''/r/sub'' \<mapsto> dir_at 20, ''/r/sub/f'' \<mapsto> file_at 20 0),
      [modified ''/r/sub'' (dir_at 10) (dir_at 20), added ''/r/sub/f'' (file_at 20 0)])"
  by (simp add: code_defs ex_defs sub_keys_def sub_infos_def fs_sub_file_def)

subsection \<open>The kinds of update\<close>

lemma grows_new:
  assumes "grows (infos, d) st'"
  shows "\<exists>new. snd st' = d @ new \<and> (\<forall>u \<in> set new. \<exists>p fi. u = added p fi)"
proof -
  from assms obtain new where "snd st' = d @ new"
    "\<forall>u \<in> set new. \<exists>fi. fst st' (AbsPath u) = Some fi \<and> u = added (AbsPath u) fi"
    unfolding grows_def by auto
  then have "snd st' = d @ new \<and> (\<forall>u \<in> set new. \<exists>p fi. u = added p fi)" by blast
  then show ?thesis ..
qed

lemma scanPath_kinds:
  assumes "u \<in> set (snd (scanPath fs recurse k kprev (infos, d)))"
  shows "u \<in> set d \<or> (\<exists>e. u = removed k kprev (PathError e))
       \<or> (\<exists>nxt. u = modified k kprev nxt) \<or> (\<exists>p fi. u = added p fi)"
proof (cases "Stat fs k")
  case (Inl e)
  with assms show ?thesis by (auto simp: scanPath_failed)
next
  case (Inr nxt)
  show ?thesis
  proof (cases "changed kprev nxt")
    case False
    with Inr assms show ?thesis by (simp add: scanPath_unchanged)
  next
    case True
    from grows_new[OF scanPath_changed[OF Inr True, of infos d recurse]]
    obtain new where n: "snd (scanPath fs recurse k kprev (infos, d)) = (d @ [modified k kprev nxt]) @ new"
      "\<forall>u \<in> set new. \<exists>p fi. u = added p fi"
      by blast
    from assms[unfolded n(1)] n(2) show ?thesis by auto
  qed
qed

lemma scan_kinds:
  assumes "u \<in> set (snd (scan fs recurse keys (infos, d)))"
  shows "u \<in> set d \<or> (\<exists>p prev e. u = removed p prev (PathError e))
       \<or> (\<exists>p prev nxt. u = modified p prev nxt) \<or> (\<exists>p fi. u = added p fi)"
  using assms
proof (induction keys arbitrary: infos d)
  case Nil
  then show ?case by simp
next
  case (Cons k keys)
  show ?case
  proof (cases "infos k")
    case None
    with Cons.prems have "u \<in> set (snd (scan fs recurse keys (infos, d)))" by simp
    from Cons.IH[OF this] show ?thesis .
  next
    case (Some kprev)
    obtain infos1 d1 where s1: "scanPath fs recurse k kprev (infos, d) = (infos1, d1)"
      by (cases "scanPath fs recurse k kprev (infos, d)")
    from Cons.prems Some s1 have "u \<in> set (snd (scan fs recurse keys (infos1, d1)))" by simp
    from Cons.IH[OF this] scanPath_kinds[of _ fs recurse k kprev infos d] s1
    show ?thesis by fastforce
  qed
qed

lemma initial_kinds: "u \<in> set (initial infos keys) \<Longrightarrow> \<exists>p fi. u = added p fi"
  by (induction keys) (auto simp: added_def split: option.splits)

subsection \<open>The loop\<close>


lemma loop_tick:
  assumes "select p = Some CaseTick"
  shows "loop recurse infos (p # ps) =
           (if snd (scan (snapshot p) recurse (key_order p) (infos, [])) = [] then []
            else [Send (snd (scan (snapshot p) recurse (key_order p) (infos, [])))])
           @ loop recurse (fst (scan (snapshot p) recurse (key_order p) (infos, []))) ps"
  using assms by (simp split: prod.splits)

lemma loop_blocked:
  assumes "select p = None"
  shows "loop recurse infos (p # ps) = loop recurse infos ps"
  using assms by simp

lemma loop_sends:
  assumes "Send b \<in> set (loop recurse infos ps)"
  shows "b \<noteq> [] \<and> (\<exists>fs keys infos0. b = snd (scan fs recurse keys (infos0, [])))"
  using assms
proof (induction ps arbitrary: infos)
  case Nil
  then show ?case by simp
next
  case (Cons p ps)
  show ?case
  proof (cases "select p")
    case None
    with Cons show ?thesis by simp
  next
    case (Some c)
    show ?thesis
    proof (cases c)
      case CaseDone
      with Some Cons.prems show ?thesis by simp
    next
      case CaseTick
      with Some have t: "select p = Some CaseTick" by simp
      let ?s = "scan (snapshot p) recurse (key_order p) (infos, [])"
      from Cons.prems[unfolded loop_tick[OF t]]
      consider "snd ?s \<noteq> []" "b = snd ?s" | "Send b \<in> set (loop recurse (fst ?s) ps)"
        by (auto split: if_splits)
      then show ?thesis
      proof cases
        case 1
        from 1(2) have "\<exists>fs keys infos0. b = snd (scan fs recurse keys (infos0, []))" by blast
        with 1 show ?thesis by simp
      next
        case 2
        then show ?thesis by (rule Cons.IH)
      qed
    qed
  qed
qed

lemma loop_no_ticker: "NewTicker d \<notin> set (loop recurse infos ps)"
proof (induction ps arbitrary: infos)
  case Nil
  show ?case by simp
next
  case (Cons p ps)
  show ?case
  proof (cases "select p")
    case None
    with Cons show ?thesis by simp
  next
    case (Some c)
    then show ?thesis using Cons by (cases c) (auto split: prod.splits)
  qed
qed



lemma initial_nonempty: "p \<in> set keys \<Longrightarrow> infos p \<noteq> None \<Longrightarrow> initial infos keys \<noteq> []"
  by (induction keys) (auto split: option.splits)

subsection \<open>The errors a walk returns\<close>

text \<open>
  A walk calls its closure with the metadata of a path or with an error, never with neither.
  What the closure returns in these cases is all a walk can return.
\<close>

lemma walk_result_both:
  assumes step: "\<And>p i e s. (i \<noteq> None \<and> e = None) \<or> (\<exists>x. e = Some (PathError x)) \<Longrightarrow> Q (fst (fn p i e s))"
    and none: "Q None"
  shows "Q (fst (walk fn path info rderr names s))"
    and "Q (fst (walk_names fn path names s))"
  using step
proof (induction fn path info rderr names s and fn path names s
    rule: walk_walk_names.induct)
  case (1 walkFn path info rderr names s)
  show ?case
  proof (cases "IsDir info")
    case False
    with "1.prems"[of "Some info" None path s] show ?thesis by (simp add: walk.simps)
  next
    case True
    obtain err1 s1 where f: "walkFn path (Some info) (map_option PathError rderr) s = (err1, s1)"
      by (cases "walkFn path (Some info) (map_option PathError rderr) s")
    from "1.prems"[of "Some info" "map_option PathError rderr" path s] f have q1: "Q err1"
      by (cases rderr) auto
    show ?thesis
    proof (cases "rderr \<noteq> None \<or> err1 \<noteq> None")
      case True
      with \<open>IsDir info\<close> f q1 show ?thesis by (auto simp: walk.simps)
    next
      case False
      from "1.IH"[OF _ f[symmetric]] \<open>IsDir info\<close> False "1.prems"
      have "Q (fst (walk_names walkFn path names s1))" by auto
      with \<open>IsDir info\<close> f False show ?thesis by (auto simp: walk.simps)
    qed
  qed
next
  case (2 walkFn path s)
  show ?case by (simp add: none)
next
  case (3 walkFn path name e rderr sub rest s)
  obtain err s1 where f: "walkFn (Join path name) None (Some (PathError e)) s = (err, s1)"
    by (cases "walkFn (Join path name) None (Some (PathError e)) s")
  from "3.prems"[of None "Some (PathError e)" "Join path name" s] f have q1: "Q err" by simp
  show ?case
  proof (cases "err \<noteq> None \<and> err \<noteq> Some SkipDir")
    case True
    with f q1 show ?thesis by auto
  next
    case False
    from "3.IH"[OF f[symmetric]] False "3.prems"
    have "Q (fst (walk_names walkFn path rest s1))" by auto
    with f False show ?thesis by auto
  qed
next
  case (4 walkFn path name fileInfo rderr sub rest s)
  obtain err s1 where f: "walk walkFn (Join path name) fileInfo rderr sub s = (err, s1)"
    by (cases "walk walkFn (Join path name) fileInfo rderr sub s")
  from "4.IH"(1)[OF "4.prems"] f have q1: "Q err" by simp
  show ?case
  proof (cases "err \<noteq> None \<and> (\<not> IsDir fileInfo \<or> err \<noteq> Some SkipDir)")
    case True
    with f q1 show ?thesis by auto
  next
    case False
    from "4.IH"(2)[OF f[symmetric]] False "4.prems"
    have "Q (fst (walk_names walkFn path rest s1))" by auto
    with f False show ?thesis by auto
  qed
qed

lemma Walk_result:
  assumes step: "\<And>p i e s. (i \<noteq> None \<and> e = None) \<or> (\<exists>x. e = Some (PathError x)) \<Longrightarrow> Q (fst (fn p i e s))"
    and none: "Q None"
  shows "Q (fst (Walk fn root t s)) \<and> fst (Walk fn root t s) \<noteq> Some SkipDir"
proof -
  let ?inner = "case lstat t of
                  Inl e \<Rightarrow> fn root None (Some (PathError e)) s
                | Inr info \<Rightarrow> walk fn root info (readDirErr t) (entries t) s"
  have q: "Q (fst ?inner)"
  proof (cases "lstat t")
    case (Inl e)
    with step[of None "Some (PathError e)" root s] show ?thesis by simp
  next
    case (Inr info)
    with walk_result_both(1)[of Q fn root info "readDirErr t" "entries t" s, OF step none]
    show ?thesis by simp
  qed
  have "fst (Walk fn root t s) = (if fst ?inner = Some SkipDir then None else fst ?inner)"
    by (simp add: Walk_def split: prod.splits)
  with q none show ?thesis by simp
qed

text \<open>A walk with a closure of \<^verbatim>\<open>Watch\<close> returns nil or an error of the operating system:
  it turns \<^verbatim>\<open>SkipDir\<close> into nil, and the closures dereference no nil.\<close>

lemma Walk_walkInit_error:
  "fst (Walk (walkInit root recurse) root t s) = None
   \<or> (\<exists>x. fst (Walk (walkInit root recurse) root t s) = Some (PathError x))"
proof -
  let ?Q = "\<lambda>r. r = None \<or> r = Some SkipDir \<or> (\<exists>x. r = Some (PathError x))"
  have "?Q (fst (Walk (walkInit root recurse) root t s))
      \<and> fst (Walk (walkInit root recurse) root t s) \<noteq> Some SkipDir"
    by (rule Walk_result[where Q = ?Q]) (auto simp: walkInit_def split: if_splits)
  then show ?thesis by blast
qed

lemma Walk_walkDiscover_error:
  "fst (Walk (walkDiscover recurse) root t st) = None
   \<or> (\<exists>x. fst (Walk (walkDiscover recurse) root t st) = Some (PathError x))"
proof -
  let ?Q = "\<lambda>r. r = None \<or> r = Some SkipDir \<or> (\<exists>x. r = Some (PathError x))"
  have "?Q (fst (Walk (walkDiscover recurse) root t st))
      \<and> fst (Walk (walkDiscover recurse) root t st) \<noteq> Some SkipDir"
    by (rule Walk_result[where Q = ?Q])
       (auto simp: walkDiscover_def Let_def split: prod.splits if_splits)
  then show ?thesis by blast
qed

theorem Watch_error_kinds:
  "ret_err (Watch Abs tree path recurse interval) = None
   \<or> (\<exists>x. ret_err (Watch Abs tree path recurse interval) = Some (PathError x))
   \<or> (\<exists>d. interval = Some d \<and> d \<le> 0
         \<and> ret_err (Watch Abs tree path recurse interval) = Some (IntervalError d))"
proof (cases "Abs path")
  case (Inl e)
  then show ?thesis by (simp add: Watch_def)
next
  case (Inr root)
  show ?thesis
  proof (cases "tickOf interval")
    case (Inl err)
    with Inr show ?thesis
      by (auto simp: Watch_def tickOf_def Let_def split: option.splits if_splits)
  next
    case r: (Inr tick)
    obtain werr infos where w: "Walk (walkInit root recurse) root (tree root) Map.empty = (werr, infos)"
      by (cases "Walk (walkInit root recurse) root (tree root) Map.empty")
    with Walk_walkInit_error[of root recurse "tree root" Map.empty]
    have "werr = None \<or> (\<exists>x. werr = Some (PathError x))" by simp
    with Inr r w show ?thesis by (auto simp: Watch_def)
  qed
qed

subsection \<open>What a delivered update can carry\<close>

text \<open>
  Every update of a delivered batch is of one of the three kinds. So an update carries an
  error only if it is a removal, and the error is then the one of the stat; the update
  of an in-place change never carries one, whatever its discovery walk returned.
\<close>

lemma run_kinds:
  assumes "Send b \<in> set (run g first_keys ps)" and "u \<in> set b"
  shows "(\<exists>p prev e. u = removed p prev (PathError e))
       \<or> (\<exists>p prev nxt. u = modified p prev nxt) \<or> (\<exists>p fi. u = added p fi)"
proof -
  from assms(1) consider "b = initial (g_infos g) first_keys"
    | "Send b \<in> set (loop (g_recurse g) (g_infos g) ps)"
    by (auto simp: run_def)
  then show ?thesis
  proof cases
    case 1
    with assms(2) initial_kinds show ?thesis by blast
  next
    case 2
    from loop_sends[OF 2] obtain fs keys infos0 where
      "b = snd (scan fs (g_recurse g) keys (infos0, []))" by blast
    with assms(2) scan_kinds[of u fs "g_recurse g" keys infos0 "[]"] show ?thesis by simp
  qed
qed

lemma delivered_error_only_on_removal:
  assumes "Send b \<in> set (run g first_keys ps)" and "u \<in> set b" and "Error u \<noteq> None"
  shows "WasRemoved u \<and> Next u = None \<and> (\<exists>e. Error u = Some (PathError e))"
  using run_kinds[OF assms(1,2)] assms(3)
  by (auto simp: removed_def modified_def added_def)

subsection \<open>The initial walk without recursion\<close>

text \<open>
  Without recursion, a successful initial walk of a directory tracks the directory and
  its entries, and nothing else: it does not descend into a subdirectory.
\<close>

lemma Join_neq: "Join root name \<noteq> root"
  by (simp add: Join_def)

lemma walk_names_flat:
  assumes "walk_names (walkInit root False) root kids s = (r, s')"
    and "r = None \<or> r = Some SkipDir"
  shows "dom s' = dom s \<union> (\<lambda>k. Join root (fst k)) ` set kids"
  using assms
proof (induction kids arbitrary: s)
  case Nil
  then show ?case by simp
next
  case (Cons k kids)
  obtain name l rd sub where k: "k = (name, Node l rd sub)"
    by (cases k, rename_tac a b, case_tac b) auto
  show ?case
  proof (cases l)
    case (Inl e)
    with Cons.prems k show ?thesis by (auto simp: walkInit_def)
  next
    case (Inr fi)
    have w: "walk (walkInit root False) (Join root name) fi rd sub s =
               (if IsDir fi then
                  (case rd of None \<Rightarrow> (Some SkipDir, s(Join root name \<mapsto> fi))
                   | Some e \<Rightarrow> (Some (PathError e), s))
                else (None, s(Join root name \<mapsto> fi)))"
      by (cases rd) (simp_all add: walk.simps walkInit_def Join_neq)
    show ?thesis
    proof (cases "IsDir fi \<and> rd \<noteq> None")
      case True
      with Cons.prems k Inr w show ?thesis by auto
    next
      case False
      with Cons.prems k Inr w
      have "walk_names (walkInit root False) root kids (s(Join root name \<mapsto> fi)) = (r, s')"
        by (auto split: if_splits option.splits)
      from Cons.IH[OF this Cons.prems(2)] k show ?thesis by auto
    qed
  qed
qed

lemma initial_walk_flat:
  assumes "Walk (walkInit root False) root (Node (Inr info) rd kids) Map.empty = (None, infos)"
    and "IsDir info"
  shows "dom infos = insert root ((\<lambda>k. Join root (fst k)) ` set kids)"
proof -
  obtain r0 where w: "walk (walkInit root False) root info rd kids Map.empty = (r0, infos)"
    and r0: "r0 = None \<or> r0 = Some SkipDir"
    using assms(1) by (auto simp: Walk_def split: prod.splits if_splits)
  show ?thesis
  proof (cases rd)
    case (Some e)
    with w r0 assms(2) show ?thesis by (auto simp: walk.simps walkInit_def)
  next
    case None
    with w assms(2) have n: "walk_names (walkInit root False) root kids [root \<mapsto> info] = (r0, infos)"
      by (simp add: walk.simps walkInit_def)
    from walk_names_flat[OF n r0] show ?thesis by simp
  qed
qed

section \<open>The claims\<close>

text \<open>
  C1. For every successfully started watch session, exactly one initial batch is delivered
  before the periodic loop begins (before the ticker is made), and it holds exactly one
  update per path of the tracked set built by the initial walk: \<open>WasAdded\<close> is true,
  \<open>Prev\<close> is the metadata the walk has just observed, and there is no \<open>Next\<close>.
\<close>

theorem C1_initial_batch:
  assumes "started (Watch Abs tree path recurse interval) = Some g"
    and "distinct first_keys" and "dom (g_infos g) \<subseteq> set first_keys"
  shows "\<exists>root b.
           Abs path = Inr root
         \<and> g_infos g = snd (Walk (walkInit root recurse) root (tree root) Map.empty)
         \<and> run g first_keys ps = Send b # NewTicker (g_tick g) # loop (g_recurse g) (g_infos g) ps
         \<and> length b = card (dom (g_infos g))
         \<and> (\<forall>u \<in> set b. g_infos g (AbsPath u) \<noteq> None)
         \<and> (\<forall>p fi. g_infos g p = Some fi \<longrightarrow>
               filter (\<lambda>u. AbsPath u = p) b =
                 [\<lparr>AbsPath = p, Prev = Some fi, Next = None, Error = None,
                   WasRemoved = False, WasAdded = True\<rparr>])"
proof -
  from Watch_started[OF assms(1)] obtain root where
    r: "Abs path = Inr root" "Walk (walkInit root recurse) root (tree root) Map.empty = (None, g_infos g)"
    by blast
  let ?b = "initial (g_infos g) first_keys"
  have 1: "g_infos g = snd (Walk (walkInit root recurse) root (tree root) Map.empty)"
    using r(2) by simp
  have 2: "run g first_keys ps = Send ?b # NewTicker (g_tick g) # loop (g_recurse g) (g_infos g) ps"
    by (simp add: run_def)
  have 3: "length ?b = card (dom (g_infos g))"
    using assms(2,3) by (rule initial_length)
  have 4: "\<forall>u \<in> set ?b. g_infos g (AbsPath u) \<noteq> None"
    by (auto dest: initial_tracked)
  have 5: "\<forall>p fi. g_infos g p = Some fi \<longrightarrow>
               filter (\<lambda>u. AbsPath u = p) ?b =
                 [\<lparr>AbsPath = p, Prev = Some fi, Next = None, Error = None,
                   WasRemoved = False, WasAdded = True\<rparr>]"
  proof (intro allI impI)
    fix p fi assume a: "g_infos g p = Some fi"
    then have "p \<in> set first_keys" using assms(3) by auto
    with assms(2) show "filter (\<lambda>u. AbsPath u = p) ?b =
                 [\<lparr>AbsPath = p, Prev = Some fi, Next = None, Error = None,
                   WasRemoved = False, WasAdded = True\<rparr>]"
      using a by (rule initial_for_path)
  qed
  from r(1) 1 2 3 4 5 show ?thesis by blast
qed

theorem C1_initial_batch_witness:
  "started (Watch Inr (\<lambda>_. ex_tree) ''/w'' False None) = Some ex_g
   \<and> distinct ex_keys \<and> dom (g_infos ex_g) \<subseteq> set ex_keys
   \<and> (\<exists>root b.
           Inr ''/w'' = (Inr root :: syserr + string)
         \<and> g_infos ex_g = snd (Walk (walkInit root False) root ex_tree Map.empty)
         \<and> run ex_g ex_keys [] = Send b # NewTicker (g_tick ex_g) # loop (g_recurse ex_g) (g_infos ex_g) []
         \<and> length b = card (dom (g_infos ex_g))
         \<and> (\<forall>u \<in> set b. g_infos ex_g (AbsPath u) \<noteq> None)
         \<and> (\<forall>p fi. g_infos ex_g p = Some fi \<longrightarrow>
               filter (\<lambda>u. AbsPath u = p) b =
                 [\<lparr>AbsPath = p, Prev = Some fi, Next = None, Error = None,
                   WasRemoved = False, WasAdded = True\<rparr>]))"
proof -
  have h1: "started (Watch Inr (\<lambda>_. ex_tree) ''/w'' False None) = Some ex_g"
    by (simp add: ex_Watch)
  have h2: "distinct ex_keys" and h3: "dom (g_infos ex_g) \<subseteq> set ex_keys"
    using ex_keys_ok by simp_all
  from C1_initial_batch[OF h1 h2 h3, of "[]"] h1 h2 h3
  show ?thesis by blast
qed

text \<open>
  C2. For a tracked path whose stat succeeds in a tick, the scan appends the update of an
  in-place change (\<open>Prev\<close> the stored snapshot, \<open>Next\<close> the new one, no error, both flags
  false) if and only if the new modification time is later than the stored one or the
  sizes differ, and in that case stores the new snapshot for the path; otherwise it appends
  no update about the path and leaves the stored snapshot as it is. The loop may be at any
  point of the tick (\<open>d\<close> holds the updates so far), the path being among the keys to come.
\<close>

theorem C2_in_place_change:
  assumes "infos p = Some prev" and "Stat fs p = Inr nxt"
    and "distinct keys" and "p \<in> set keys"
  shows "filter (\<lambda>u. AbsPath u = p) (snd (scan fs recurse keys (infos, d))) =
           filter (\<lambda>u. AbsPath u = p) d @
           (if ModTime prev < ModTime nxt \<or> Size prev \<noteq> Size nxt
            then [\<lparr>AbsPath = p, Prev = Some prev, Next = Some nxt, Error = None,
                   WasRemoved = False, WasAdded = False\<rparr>]
            else [])
       \<and> fst (scan fs recurse keys (infos, d)) p =
           Some (if ModTime prev < ModTime nxt \<or> Size prev \<noteq> Size nxt then nxt else prev)"
proof -
  obtain infos' d' where s: "scan fs recurse keys (infos, d) = (infos', d')"
    by (cases "scan fs recurse keys (infos, d)")
  from scan_stat_ok[OF assms s] s show ?thesis
    by (simp add: about_def changed_def modified_def)
qed

theorem C2_in_place_change_witness:
  "ex_infos ''/w/a'' = Some (file_at 10 0) \<and> Stat fs_written ''/w/a'' = Inr (file_at 20 3)
   \<and> Stat fs_same ''/w/a'' = Inr (file_at 10 0)
   \<and> distinct ex_keys \<and> ''/w/a'' \<in> set ex_keys
   \<and> filter (\<lambda>u. AbsPath u = ''/w/a'') (snd (scan fs_written False ex_keys (ex_infos, []))) =
        [\<lparr>AbsPath = ''/w/a'', Prev = Some (file_at 10 0), Next = Some (file_at 20 3), Error = None,
          WasRemoved = False, WasAdded = False\<rparr>]
   \<and> fst (scan fs_written False ex_keys (ex_infos, [])) ''/w/a'' = Some (file_at 20 3)
   \<and> filter (\<lambda>u. AbsPath u = ''/w/a'') (snd (scan fs_same False ex_keys (ex_infos, []))) = []
   \<and> fst (scan fs_same False ex_keys (ex_infos, [])) ''/w/a'' = Some (file_at 10 0)"
proof -
  have h1: "ex_infos ''/w/a'' = Some (file_at 10 0)" by (simp add: ex_defs)
  have h2: "Stat fs_written ''/w/a'' = Inr (file_at 20 3)" by (simp add: fs_written_def)
  have h2': "Stat fs_same ''/w/a'' = Inr (file_at 10 0)" by (simp add: fs_same_def)
  have h3: "distinct ex_keys" and h4: "''/w/a'' \<in> set ex_keys" by (simp_all add: ex_defs)
  from C2_in_place_change[where infos = ex_infos and p = "''/w/a''" and fs = fs_written
         and recurse = False and d = "[]", OF h1 h2 h3 h4]
       C2_in_place_change[where infos = ex_infos and p = "''/w/a''" and fs = fs_same
         and recurse = False and d = "[]", OF h1 h2' h3 h4]
       h1 h2 h2' h3 h4
  show ?thesis by (simp add: file_at_def)
qed




text \<open>
  C4. The claim is that the error of a failed discovery walk is attached to the update of
  the directory in the delivered batch, so that no failure goes unreported. The code does
  not do this: \<^verbatim>\<open>*up\<close> is appended before the walk, and the error is assigned to \<^verbatim>\<open>up\<close>
  afterwards. At this input the tracked directory \<^verbatim>\<open>/w\<close> has a later modification time and
  cannot be read, so that its discovery walk returns the error of reading it; the update
  for \<^verbatim>\<open>/w\<close> in the delivered batch has no error, and no other update carries it.
\<close>

theorem C4_walk_error_not_delivered:
  "fst (Walk (walkDiscover False) ''/w'' (Tree fs_unreadable ''/w'')
         (ex_infos(''/w'' \<mapsto> dir_at 20), [modified ''/w'' (dir_at 10) (dir_at 20)]))
     = Some (PathError EACCES)
   \<and> run ex_g ex_keys [tick_pass fs_unreadable] =
       [Send [added ''/w/a'' (file_at 10 0), added ''/w'' (dir_at 10)],
        NewTicker 2000000000,
        Send [modified ''/w'' (dir_at 10) (dir_at 20)]]
   \<and> Error (modified ''/w'' (dir_at 10) (dir_at 20)) = None"
proof -
  have "run ex_g ex_keys [tick_pass fs_unreadable] =
       [Send [added ''/w/a'' (file_at 10 0), added ''/w'' (dir_at 10)],
        NewTicker 2000000000,
        Send [modified ''/w'' (dir_at 10) (dir_at 20)]]"
    by (simp add: run_def ex_g_def ex_initial[unfolded ex_initial_def]
        tick_pass_def select_def ex_scan_unreadable)
  moreover have "Error (modified ''/w'' (dir_at 10) (dir_at 20)) = None"
    by (simp add: modified_def)
  ultimately show ?thesis using ex_walk_unreadable by simp
qed

text \<open>
  C5. The claim is that a session without recursion never reports a file created inside
  a subdirectory, the discovery walks skipping directories as the initial walk does. The
  code does not do this: the closure of a discovery walk skips only a directory that it
  has just added. At this input \<^verbatim>\<open>/r\<close> is watched without recursion, so that the initial
  walk tracks \<^verbatim>\<open>/r\<close> and \<^verbatim>\<open>/r/sub\<close>; then the file \<^verbatim>\<open>/r/sub/f\<close> is created. The discovery
  walk rooted at the tracked directory \<^verbatim>\<open>/r/sub\<close> descends into it, and the batch of that
  tick holds an update for \<^verbatim>\<open>/r/sub/f\<close>, flagged as added.
\<close>

theorem C5_subdirectory_file_reported:
  "started (Watch Inr (\<lambda>_. sub_tree) ''/r'' False None) = Some sub_g
   \<and> g_recurse sub_g = False
   \<and> run sub_g sub_keys [sub_pass] =
       [Send [added ''/r'' (dir_at 10), added ''/r/sub'' (dir_at 10)],
        NewTicker 2000000000,
        Send [modified ''/r/sub'' (dir_at 10) (dir_at 20), added ''/r/sub/f'' (file_at 20 0)]]
   \<and> WasAdded (added ''/r/sub/f'' (file_at 20 0))"
proof -
  have "initial sub_infos sub_keys = [added ''/r'' (dir_at 10), added ''/r/sub'' (dir_at 10)]"
    by (simp add: sub_infos_def sub_keys_def added_def)
  then have "run sub_g sub_keys [sub_pass] =
       [Send [added ''/r'' (dir_at 10), added ''/r/sub'' (dir_at 10)],
        NewTicker 2000000000,
        Send [modified ''/r/sub'' (dir_at 10) (dir_at 20), added ''/r/sub/f'' (file_at 20 0)]]"
    by (simp add: run_def sub_g_def sub_pass_def select_def sub_scan)
  moreover have "WasAdded (added ''/r/sub/f'' (file_at 20 0))" by (simp add: added_def)
  moreover have "g_recurse sub_g = False" by (simp add: sub_g_def)
  ultimately show ?thesis using sub_Watch by simp
qed

text \<open>
  C6. No batch that is delivered is empty, the initial one included; and a pass of the
  loop that takes the tick sends the updates of its scan as one batch if there is at
  least one, and sends nothing if there is none.
\<close>

theorem C6_no_empty_batch:
  assumes "started (Watch Abs tree path recurse interval) = Some g"
    and "dom (g_infos g) \<subseteq> set first_keys"
  shows "(\<forall>b. Send b \<in> set (run g first_keys ps) \<longrightarrow> b \<noteq> [])
       \<and> (select p = Some CaseTick \<longrightarrow>
            loop r infos (p # qs) =
              (if snd (scan (snapshot p) r (key_order p) (infos, [])) = [] then []
               else [Send (snd (scan (snapshot p) r (key_order p) (infos, [])))])
              @ loop r (fst (scan (snapshot p) r (key_order p) (infos, []))) qs)"
proof -
  from Watch_started[OF assms(1)] obtain root where
    "Walk (walkInit root recurse) root (tree root) Map.empty = (None, g_infos g)" by blast
  then have "g_infos g root \<noteq> None" by (rule initial_walk_tracks_root)
  moreover from this assms(2) have "root \<in> set first_keys" by auto
  ultimately have i: "initial (g_infos g) first_keys \<noteq> []" by (rule initial_nonempty[rotated])
  have "\<forall>b. Send b \<in> set (run g first_keys ps) \<longrightarrow> b \<noteq> []"
  proof (intro allI impI)
    fix b assume "Send b \<in> set (run g first_keys ps)"
    then consider "b = initial (g_infos g) first_keys" | "Send b \<in> set (loop (g_recurse g) (g_infos g) ps)"
      by (auto simp: run_def)
    then show "b \<noteq> []"
    proof cases
      case 1
      with i show ?thesis by simp
    next
      case 2
      from loop_sends[OF 2] show ?thesis by simp
    qed
  qed
  moreover have "select p = Some CaseTick \<longrightarrow>
            loop r infos (p # qs) =
              (if snd (scan (snapshot p) r (key_order p) (infos, [])) = [] then []
               else [Send (snd (scan (snapshot p) r (key_order p) (infos, [])))])
              @ loop r (fst (scan (snapshot p) r (key_order p) (infos, []))) qs"
    by (rule impI) (rule loop_tick)
  ultimately show ?thesis by (rule conjI)
qed

theorem C6_no_empty_batch_witness:
  "started (Watch Inr (\<lambda>_. ex_tree) ''/w'' False None) = Some ex_g
   \<and> dom (g_infos ex_g) \<subseteq> set ex_keys
   \<and> run ex_g ex_keys [tick_pass fs_same, tick_pass fs_written] =
       [Send ex_initial, NewTicker 2000000000, Send [modified ''/w/a'' (file_at 10 0) (file_at 20 3)]]
   \<and> ex_initial \<noteq> []
   \<and> select (tick_pass fs_same) = Some CaseTick
   \<and> loop False ex_infos [tick_pass fs_same] = []"
proof -
  have h1: "started (Watch Inr (\<lambda>_. ex_tree) ''/w'' False None) = Some ex_g"
    by (simp add: ex_Watch)
  have h2: "dom (g_infos ex_g) \<subseteq> set ex_keys" using ex_keys_ok by simp
  have h3: "select (tick_pass fs_same) = Some CaseTick" by (simp add: tick_pass_def select_def)
  have r: "run ex_g ex_keys [tick_pass fs_same, tick_pass fs_written] =
       [Send ex_initial, NewTicker 2000000000, Send [modified ''/w/a'' (file_at 10 0) (file_at 20 3)]]"
    by (simp add: run_def ex_g_def ex_initial tick_pass_def select_def ex_scan_same ex_scan_written)
  note c = C6_no_empty_batch[where p = "tick_pass fs_same" and r = False and infos = ex_infos
      and qs = "[]" and ps = "[tick_pass fs_same, tick_pass fs_written]", OF h1 h2]
  from c r have "ex_initial \<noteq> []" by simp
  moreover from c h3 have "loop False ex_infos [tick_pass fs_same] = []"
    by (simp add: tick_pass_def ex_scan_same)
  ultimately show ?thesis using h1 h2 h3 r by simp
qed

text \<open>
  C7. \<^verbatim>\<open>Watch\<close> returns an error exactly when the path cannot be resolved, or an interval
  is given that is zero or negative, or the initial walk returns an error; and when it
  returns an error it returns no channel and has started no goroutine (nothing holds the
  map of the walk), while without an error it returns the channel and has started one.
\<close>

theorem C7_setup_errors:
  "(ret_err (Watch Abs tree path recurse interval) \<noteq> None \<longleftrightarrow>
      (\<exists>e. Abs path = Inl e)
    \<or> (\<exists>d. interval = Some d \<and> d \<le> 0)
    \<or> (\<exists>root. Abs path = Inr root
          \<and> fst (Walk (walkInit root recurse) root (tree root) Map.empty) \<noteq> None))
   \<and> (ret_err (Watch Abs tree path recurse interval) \<noteq> None \<longrightarrow>
        ret_chan (Watch Abs tree path recurse interval) = None
      \<and> started (Watch Abs tree path recurse interval) = None)
   \<and> (ret_err (Watch Abs tree path recurse interval) = None \<longrightarrow>
        ret_chan (Watch Abs tree path recurse interval) = Some Updates
      \<and> started (Watch Abs tree path recurse interval) \<noteq> None)"
proof (cases "Abs path")
  case (Inl e)
  then show ?thesis by (simp add: Watch_def)
next
  case (Inr root)
  show ?thesis
  proof (cases interval)
    case None
    with Inr show ?thesis
      by (cases "Walk (walkInit root recurse) root (tree root) Map.empty")
         (auto simp: Watch_def tickOf_def split: option.splits)
  next
    case (Some d)
    with Inr show ?thesis
      by (cases "Walk (walkInit root recurse) root (tree root) Map.empty")
         (auto simp: Watch_def tickOf_def split: option.splits)
  qed
qed

theorem C7_setup_errors_witness:
  "ret_err (Watch Inr (\<lambda>_. ex_tree) ''/w'' False (Some 0)) = Some (IntervalError 0)
   \<and> ret_chan (Watch Inr (\<lambda>_. ex_tree) ''/w'' False (Some 0)) = None
   \<and> started (Watch Inr (\<lambda>_. ex_tree) ''/w'' False (Some 0)) = None
   \<and> ret_err (Watch (\<lambda>_. Inl EACCES) (\<lambda>_. ex_tree) ''w'' False None) = Some (PathError EACCES)
   \<and> started (Watch (\<lambda>_. Inl EACCES) (\<lambda>_. ex_tree) ''w'' False None) = None
   \<and> ret_err (Watch Inr (\<lambda>_. Node (Inl ENOENT) None []) ''/w'' False None) = Some (PathError ENOENT)
   \<and> started (Watch Inr (\<lambda>_. Node (Inl ENOENT) None []) ''/w'' False None) = None
   \<and> ret_err (Watch Inr (\<lambda>_. ex_tree) ''/w'' False None) = None
   \<and> ret_chan (Watch Inr (\<lambda>_. ex_tree) ''/w'' False None) = Some Updates"
proof -
  have 1: "ret_err (Watch Inr (\<lambda>_. ex_tree) ''/w'' False (Some 0)) = Some (IntervalError 0)"
    by (simp add: Watch_def tickOf_def)
  have 2: "ret_err (Watch (\<lambda>_. Inl EACCES) (\<lambda>_. ex_tree) ''w'' False None) = Some (PathError EACCES)"
    by (simp add: Watch_def)
  have 3: "ret_err (Watch Inr (\<lambda>_. Node (Inl ENOENT) None []) ''/w'' False None) = Some (PathError ENOENT)"
    by (simp add: Watch_def tickOf_def Walk_def walkInit_def)
  have 4: "ret_err (Watch Inr (\<lambda>_. ex_tree) ''/w'' False None) = None"
    by (simp add: ex_Watch)
  from 1 C7_setup_errors[of Inr "\<lambda>_. ex_tree" "''/w''" False "Some 0"]
  have a: "ret_chan (Watch Inr (\<lambda>_. ex_tree) ''/w'' False (Some 0)) = None
         \<and> started (Watch Inr (\<lambda>_. ex_tree) ''/w'' False (Some 0)) = None" by simp
  from 2 C7_setup_errors[of "\<lambda>_. Inl EACCES" "\<lambda>_. ex_tree" "''w''" False None]
  have b: "started (Watch (\<lambda>_. Inl EACCES) (\<lambda>_. ex_tree) ''w'' False None) = None" by simp
  from 3 C7_setup_errors[of Inr "\<lambda>_. Node (Inl ENOENT) None []" "''/w''" False None]
  have c: "started (Watch Inr (\<lambda>_. Node (Inl ENOENT) None []) ''/w'' False None) = None" by simp
  from 4 C7_setup_errors[of Inr "\<lambda>_. ex_tree" "''/w''" False None]
  have d: "ret_chan (Watch Inr (\<lambda>_. ex_tree) ''/w'' False None) = Some Updates" by simp
  from 1 2 3 4 a b c d show ?thesis by simp
qed




text \<open>
  C9. In every update of every batch that a goroutine of \<^verbatim>\<open>Watch\<close> delivers, \<open>Prev\<close> is
  present, and \<open>WasAdded\<close> and \<open>WasRemoved\<close> are not both true.
\<close>

theorem C9_prev_present_flags_exclusive:
  assumes "Send b \<in> set (run g first_keys ps)" and "u \<in> set b"
  shows "Prev u \<noteq> None \<and> \<not> (WasAdded u \<and> WasRemoved u)"
  using run_kinds[OF assms] by (auto simp: removed_def modified_def added_def)

theorem C9_prev_present_flags_exclusive_witness:
  "Send [modified ''/w/a'' (file_at 10 0) (file_at 20 3)] \<in> set (run ex_g ex_keys [tick_pass fs_written])
   \<and> modified ''/w/a'' (file_at 10 0) (file_at 20 3) \<in> set [modified ''/w/a'' (file_at 10 0) (file_at 20 3)]
   \<and> Prev (modified ''/w/a'' (file_at 10 0) (file_at 20 3)) \<noteq> None
   \<and> \<not> (WasAdded (modified ''/w/a'' (file_at 10 0) (file_at 20 3))
        \<and> WasRemoved (modified ''/w/a'' (file_at 10 0) (file_at 20 3)))"
proof -
  have h1: "Send [modified ''/w/a'' (file_at 10 0) (file_at 20 3)] \<in> set (run ex_g ex_keys [tick_pass fs_written])"
    by (simp add: run_def ex_g_def tick_pass_def select_def ex_scan_written)
  have h2: "modified ''/w/a'' (file_at 10 0) (file_at 20 3) \<in> set [modified ''/w/a'' (file_at 10 0) (file_at 20 3)]"
    by simp
  from C9_prev_present_flags_exclusive[OF h1 h2] h1 h2 show ?thesis by simp
qed

text \<open>
  C10. A session started with a nil interval makes its ticker with a period of two
  seconds (2000000000 nanoseconds), and makes no other ticker.
\<close>

theorem C10_default_interval:
  assumes "started (Watch Abs tree path recurse None) = Some g"
  shows "g_tick g = 2 * Second \<and> g_tick g = 2000000000
       \<and> (NewTicker d \<in> set (run g first_keys ps) \<longleftrightarrow> d = 2000000000)"
proof -
  from Watch_started[OF assms] have "g_tick g = 2 * Second"
    by (auto simp: tickOf_def)
  then show ?thesis by (simp add: Second_def run_def loop_no_ticker)
qed

theorem C10_default_interval_witness:
  "started (Watch Inr (\<lambda>_. ex_tree) ''/w'' False None) = Some ex_g
   \<and> g_tick ex_g = 2000000000
   \<and> NewTicker 2000000000 \<in> set (run ex_g ex_keys [tick_pass fs_same])"
proof -
  have h1: "started (Watch Inr (\<lambda>_. ex_tree) ''/w'' False None) = Some ex_g"
    by (simp add: ex_Watch)
  from C10_default_interval[OF h1, of 2000000000 ex_keys "[tick_pass fs_same]"] h1
  show ?thesis by simp
qed

end
